theory Spec2Isabelle
  imports Main "HOL-Library.Sublist" "HOL-Library.Product_Lexorder" "HOL-Library.AList"
begin

section \<open>Text primitives of the interpreter\<close>

text \<open>
  A text is a list of characters; a character stands for one code point below 256, so
  \<open>length\<close> is Python's \<open>len\<close> on such texts.

  \<open>py_find sep s\<close> is the leftmost occurrence of \<open>sep\<close> in \<open>s\<close>: the text before
  it and the text after it. \<open>py_split sep n s\<close> is \<open>s.split(sep, n)\<close> for a non-empty
  separator: at most \<open>n\<close> cuts, left to right.
\<close>

fun py_find :: "string \<Rightarrow> string \<Rightarrow> (string \<times> string) option" where
  "py_find sep [] = (if sep = [] then Some ([], []) else None)"
| "py_find sep (c # cs) =
     (if prefix sep (c # cs) then Some ([], drop (length sep) (c # cs))
      else map_option (\<lambda>(b, a). (c # b, a)) (py_find sep cs))"

fun py_split :: "string \<Rightarrow> nat \<Rightarrow> string \<Rightarrow> string list" where
  "py_split sep 0 s = [s]"
| "py_split sep (Suc n) s =
     (case py_find sep s of
        None \<Rightarrow> [s]
      | Some (b, a) \<Rightarrow> b # py_split sep n a)"

text \<open>
  \<open>str.strip()\<close> without argument removes white space at both ends. Below 256 the
  white-space code points are 9 to 13, 28 to 32, 133 and 160.
\<close>

definition is_space :: "char \<Rightarrow> bool" where
  "is_space c =
     (let n = (of_char c :: nat)
      in (9 \<le> n \<and> n \<le> 13) \<or> (28 \<le> n \<and> n \<le> 32) \<or> n = 133 \<or> n = 160)"

definition py_strip :: "string \<Rightarrow> string" where
  "py_strip s = rev (dropWhile is_space (rev (dropWhile is_space s)))"

section \<open>Removing the front matter\<close>

text \<open>
  Both \<open>generate_blog_site\<close> and \<open>generate_home_page\<close> cut the header off with
  \<^verbatim>\<open>
  content_parts = md_content.split('---', 2)
  if len(content_parts) >= 3:
      content = content_parts[2].strip()
  else:
      content = md_content
  \<close>
\<close>

definition strip_frontmatter :: "string \<Rightarrow> string" where
  "strip_frontmatter md_content =
     (let content_parts = py_split ''---'' 2 md_content
      in if length content_parts \<ge> 3 then py_strip (content_parts ! 2)
         else md_content)"

section \<open>Home-page excerpts\<close>

text \<open>
  \<open>re.sub(r'[#*`]', '', excerpt)\<close> scans the text once and drops every character of
  the class.
\<close>

definition is_marker :: "char \<Rightarrow> bool" where
  "is_marker c = (c = CHR ''#'' \<or> c = CHR ''*'' \<or> c = CHR 0x60)"

fun sub_markers :: "string \<Rightarrow> string" where
  "sub_markers [] = []"
| "sub_markers (c # cs) = (if is_marker c then sub_markers cs else c # sub_markers cs)"

text \<open>
  \<^verbatim>\<open>
  excerpt = content[:150] + "..." if len(content) > 150 else content
  excerpt = re.sub(r'[#*`]', '', excerpt)
  \<close>
\<close>

definition excerpt_of :: "string \<Rightarrow> string" where
  "excerpt_of content =
     sub_markers (if length content > 150 then take 150 content @ ''...'' else content)"

text \<open>
  The \<open>try\<close> block of \<open>generate_home_page\<close>: the document is read again (\<open>None\<close> is a
  read that raises), its header is cut off and the excerpt is derived; any exception
  gives the fixed text.
\<close>

definition home_excerpt :: "string option \<Rightarrow> string" where
  "home_excerpt r =
     (case r of
        None \<Rightarrow> ''No preview available...''
      | Some md_content \<Rightarrow> excerpt_of (strip_frontmatter md_content))"

section \<open>Properties of the excerpt\<close>

lemma sub_markers_filter: "sub_markers s = filter (\<lambda>c. \<not> is_marker c) s"
  by (induction s) simp_all

lemma sub_markers_plain: "\<forall>c \<in> set s. \<not> is_marker c \<Longrightarrow> sub_markers s = s"
  by (induction s) simp_all

lemma sub_markers_append: "sub_markers (s @ t) = sub_markers s @ sub_markers t"
  by (simp add: sub_markers_filter)

text \<open>
  C7. The excerpt of a body is the body cut to its first 150 characters, with
  \<open>...\<close> appended exactly when the body is longer than 150 characters, and with every
  \<open>#\<close>, \<open>*\<close> and backquote removed afterwards. A body of 200 plain characters
  gives its first 150 characters followed by \<open>...\<close>; a body of 100 plain characters gives
  itself.
\<close>

theorem excerpt_of_truncates:
  "excerpt_of body =
     filter (\<lambda>c. \<not> is_marker c)
       (if length body > 150 then take 150 body @ ''...'' else body)
   \<and> (\<forall>c \<in> set (excerpt_of body). \<not> is_marker c)
   \<and> (length body = 200 \<and> (\<forall>c \<in> set body. \<not> is_marker c) \<longrightarrow>
        excerpt_of body = take 150 body @ ''...'' \<and> length (excerpt_of body) = 153)
   \<and> (length body = 100 \<and> (\<forall>c \<in> set body. \<not> is_marker c) \<longrightarrow>
        excerpt_of body = body)"
proof -
  have eq: "excerpt_of body =
     filter (\<lambda>c. \<not> is_marker c)
       (if length body > 150 then take 150 body @ ''...'' else body)"
    by (simp add: excerpt_of_def sub_markers_filter)
  have clean: "\<forall>c \<in> set (excerpt_of body). \<not> is_marker c"
    unfolding eq by simp
  have long: "excerpt_of body = take 150 body @ ''...'' \<and> length (excerpt_of body) = 153"
    if len: "length body = 200" and plain: "\<forall>c \<in> set body. \<not> is_marker c"
  proof -
    have "\<forall>c \<in> set (take 150 body). \<not> is_marker c"
      using plain by (meson in_set_takeD)
    then have "sub_markers (take 150 body) = take 150 body"
      by (rule sub_markers_plain)
    then have "excerpt_of body = take 150 body @ ''...''"
      using len by (simp add: excerpt_of_def sub_markers_append is_marker_def)
    then show ?thesis using len by simp
  qed
  have short: "excerpt_of body = body"
    if len: "length body = 100" and plain: "\<forall>c \<in> set body. \<not> is_marker c"
    using len sub_markers_plain [OF plain] by (simp add: excerpt_of_def)
  show ?thesis using eq clean long short by blast
qed

theorem excerpt_of_truncates_witness:
  "excerpt_of (replicate 200 CHR ''a'') = replicate 150 CHR ''a'' @ ''...''
   \<and> excerpt_of (replicate 100 CHR ''a'') = replicate 100 CHR ''a''
   \<and> excerpt_of ''# a *b*'' = '' a b''"
  using excerpt_of_truncates [of "replicate 200 CHR ''a''"]
    excerpt_of_truncates [of "replicate 100 CHR ''a''"]
    excerpt_of_truncates [of "''# a *b*''"]
  by (simp add: is_marker_def)


section \<open>The reference rewriter\<close>

text \<open>
  The pattern of \<open>update_image_references\<close> is
  \<^verbatim>\<open>!\[([^\]]*)\]\(([^\)]+)\)\<close>.
  Each of its two groups is a greedy run over a negated class followed by the one
  character the class excludes, so giving back characters never helps: the run ends at
  the first excluded character or the match fails. The scanners below follow the pattern
  from left to right; they return the groups and the text after the match.
\<close>

fun run_to_close :: "string \<Rightarrow> (string \<times> string) option" where
  "run_to_close [] = None"
| "run_to_close (c # cs) =
     (if c = CHR '')'' then Some ([], cs)
      else map_option (\<lambda>(p, r). (c # p, r)) (run_to_close cs))"

definition match_path :: "string \<Rightarrow> (string \<times> string) option" where
  "match_path s =
     (case run_to_close s of
        None \<Rightarrow> None
      | Some (p, r) \<Rightarrow> if p = [] then None else Some (p, r))"

fun match_alt :: "string \<Rightarrow> (string \<times> string \<times> string) option" where
  "match_alt [] = None"
| "match_alt (c # cs) =
     (if c = CHR '']'' then
        (case cs of
           [] \<Rightarrow> None
         | d # r \<Rightarrow>
             if d = CHR ''('' then map_option (\<lambda>(p, rest). ([], p, rest)) (match_path r)
             else None)
      else map_option (\<lambda>(a, p, rest). (c # a, p, rest)) (match_alt cs))"

definition match_image :: "string \<Rightarrow> (string \<times> string \<times> string) option" where
  "match_image s =
     (case s of
        c # d # r \<Rightarrow> if c = CHR ''!'' \<and> d = CHR ''['' then match_alt r else None
      | _ \<Rightarrow> None)"

lemma run_to_close_iff:
  "run_to_close s = Some (p, r) \<longleftrightarrow> s = p @ CHR '')'' # r \<and> CHR '')'' \<notin> set p"
proof (induction s arbitrary: p)
  case Nil
  then show ?case by simp
next
  case (Cons c cs)
  show ?case
  proof (cases "c = CHR '')''")
    case True
    then show ?thesis by (cases p) auto
  next
    case False
    then show ?thesis using Cons.IH by (cases p) auto
  qed
qed

lemma match_path_iff:
  "match_path s = Some (p, r) \<longleftrightarrow> s = p @ CHR '')'' # r \<and> CHR '')'' \<notin> set p \<and> p \<noteq> []"
proof (cases "run_to_close s")
  case None
  then show ?thesis
    using run_to_close_iff [of s p r] by (simp add: match_path_def)
next
  case (Some q)
  obtain p' r' where q: "q = (p', r')" by (cases q)
  have s: "s = p' @ CHR '')'' # r'" and np: "CHR '')'' \<notin> set p'"
    using Some q run_to_close_iff [of s p' r'] by simp_all
  show ?thesis
  proof
    assume "match_path s = Some (p, r)"
    then show "s = p @ CHR '')'' # r \<and> CHR '')'' \<notin> set p \<and> p \<noteq> []"
      using Some q s np by (auto simp: match_path_def split: if_splits)
  next
    assume a: "s = p @ CHR '')'' # r \<and> CHR '')'' \<notin> set p \<and> p \<noteq> []"
    then have "run_to_close s = Some (p, r)" by (simp add: run_to_close_iff)
    then show "match_path s = Some (p, r)" using a by (simp add: match_path_def)
  qed
qed

lemma match_alt_iff:
  "match_alt s = Some (a, p, rest) \<longleftrightarrow>
     s = a @ '']('' @ p @ CHR '')'' # rest
     \<and> CHR '']'' \<notin> set a \<and> CHR '')'' \<notin> set p \<and> p \<noteq> []"
proof (induction s arbitrary: a)
  case Nil
  then show ?case by simp
next
  case (Cons c cs)
  show ?case
  proof (cases "c = CHR '']''")
    case True
    show ?thesis
    proof (cases cs)
      case Nil
      then show ?thesis using True by (cases a) auto
    next
      case (Cons d r)
      then show ?thesis using True match_path_iff [of r p rest]
        by (cases a) auto
    qed
  next
    case False
    then show ?thesis using Cons.IH by (cases a) auto
  qed
qed

lemma match_image_iff:
  "match_image s = Some (a, p, rest) \<longleftrightarrow>
     s = ''!['' @ a @ '']('' @ p @ CHR '')'' # rest
     \<and> CHR '']'' \<notin> set a \<and> CHR '')'' \<notin> set p \<and> p \<noteq> []"
proof (cases s)
  case Nil
  then show ?thesis by (simp add: match_image_def)
next
  case (Cons c cs)
  show ?thesis
  proof (cases cs)
    case Nil
    then show ?thesis using Cons by (simp add: match_image_def)
  next
    case (Cons d r)
    then show ?thesis using \<open>s = c # cs\<close> match_alt_iff [of r a p rest]
      by (auto simp: match_image_def)
  qed
qed

lemma match_image_shorter:
  "match_image s = Some (a, p, rest) \<Longrightarrow> length rest < length s"
  by (simp add: match_image_iff)

text \<open>
  \<open>re.sub(pattern, replace_image, md_content)\<close>: the text is scanned from the left;
  where the pattern matches, the callback's result is written (literally: a callback's
  result is not searched for escapes) and the scan goes on after the match; elsewhere
  the character is copied. A match is never empty.
\<close>

function re_sub_image :: "(string \<Rightarrow> string \<Rightarrow> string) \<Rightarrow> string \<Rightarrow> string" where
  "re_sub_image repl [] = []"
| "re_sub_image repl (c # cs) =
     (case match_image (c # cs) of
        Some (alt_text, image_path, rest) \<Rightarrow> repl alt_text image_path @ re_sub_image repl rest
      | None \<Rightarrow> c # re_sub_image repl cs)"
  by pat_completeness auto
termination
  by (relation "measure (\<lambda>(repl, s). length s)") (auto dest: match_image_shorter)

text \<open>\<open>os.path.basename\<close>: the text after the last \<open>/\<close>.\<close>

definition basename :: "string \<Rightarrow> string" where
  "basename p = rev (takeWhile (\<lambda>c. c \<noteq> CHR ''/'') (rev p))"

text \<open>
  The callback of \<open>blog_generator.py\<close>, with the rename map \<open>copied_images\<close> a
  dictionary from names to names.
\<close>

definition replace_image :: "(string \<rightharpoonup> string) \<Rightarrow> string \<Rightarrow> string \<Rightarrow> string" where
  "replace_image copied_images alt_text image_path =
     (let image_filename = basename image_path
      in case copied_images image_filename of
           Some new_filename \<Rightarrow> ''!['' @ alt_text @ ''](/images/'' @ new_filename @ '')''
         | None \<Rightarrow> ''!['' @ alt_text @ ''](/images/'' @ image_filename @ '')'')"

definition update_image_references :: "string \<Rightarrow> (string \<rightharpoonup> string) \<Rightarrow> string" where
  "update_image_references md_content copied_images =
     re_sub_image (replace_image copied_images) md_content"

text \<open>
  The callback of \<open>blog_generator/md_to_html.py\<close>: a known name goes under
  \<open>../images/\<close>, an unknown one under \<open>/images/\<close>.
\<close>

definition replace_image_pkg :: "(string \<rightharpoonup> string) \<Rightarrow> string \<Rightarrow> string \<Rightarrow> string" where
  "replace_image_pkg copied_images alt_text image_path =
     (let image_filename = basename image_path
      in case copied_images image_filename of
           Some new_filename \<Rightarrow> ''!['' @ alt_text @ ''](../images/'' @ new_filename @ '')''
         | None \<Rightarrow> ''!['' @ alt_text @ ''](/images/'' @ image_filename @ '')'')"

definition update_image_references_pkg :: "string \<Rightarrow> (string \<rightharpoonup> string) \<Rightarrow> string" where
  "update_image_references_pkg md_content copied_images =
     re_sub_image (replace_image_pkg copied_images) md_content"


subsection \<open>What the scan leaves alone\<close>

lemma match_image_not_bang: "c \<noteq> CHR ''!'' \<Longrightarrow> match_image (c # cs) = None"
  by (cases cs) (simp_all add: match_image_def)

lemma match_image_needs_close:
  "match_image s = Some (a, p, rest) \<Longrightarrow> CHR '')'' \<in> set s"
  by (simp add: match_image_iff)

lemma re_sub_image_plain:
  "CHR ''!'' \<notin> set pre \<Longrightarrow> re_sub_image repl (pre @ s) = pre @ re_sub_image repl s"
  by (induction pre) (auto simp: match_image_not_bang)

lemma re_sub_image_embed:
  assumes "CHR '']'' \<notin> set a" "CHR '')'' \<notin> set p" "p \<noteq> []"
  shows "re_sub_image repl (''!['' @ a @ '']('' @ p @ CHR '')'' # post)
           = repl a p @ re_sub_image repl post"
proof -
  have "match_image (''!['' @ a @ '']('' @ p @ CHR '')'' # post) = Some (a, p, post)"
    using assms by (simp add: match_image_iff)
  then show ?thesis by simp
qed

lemma re_sub_image_no_close:
  "CHR '')'' \<notin> set s \<Longrightarrow> re_sub_image repl s = s"
proof (induction s)
  case Nil
  then show ?case by simp
next
  case (Cons c cs)
  have "match_image (c # cs) = None"
  proof (cases "match_image (c # cs)")
    case None
    then show ?thesis .
  next
    case (Some t)
    obtain a p rest where "t = (a, p, rest)" by (cases t)
    then have "CHR '')'' \<in> set (c # cs)"
      using Some match_image_needs_close by blast
    then show ?thesis using Cons.prems by simp
  qed
  then show ?case using Cons by simp
qed

text \<open>
  Both callbacks write an embed again: \<open>![\<close>, the alt text as it was, \<open>](\<close>, a new
  path and \<open>)\<close>.
\<close>

definition writes_embed :: "(string \<Rightarrow> string \<Rightarrow> string) \<Rightarrow> bool" where
  "writes_embed repl = (\<forall>a p. \<exists>q. repl a p = ''!['' @ a @ '']('' @ q @ '')'')"

lemma writes_embed_replace_image: "writes_embed (replace_image m)"
  by (simp add: writes_embed_def replace_image_def Let_def split: option.split)

lemma writes_embed_replace_image_pkg: "writes_embed (replace_image_pkg m)"
  by (simp add: writes_embed_def replace_image_pkg_def Let_def split: option.split)

lemma re_sub_image_head:
  assumes "writes_embed repl"
  shows "\<exists>t. re_sub_image repl (c # cs) = c # t"
proof (cases "match_image (c # cs)")
  case None
  then show ?thesis by simp
next
  case (Some t)
  obtain a p rest where t: "t = (a, p, rest)" by (cases t)
  have c: "c = CHR ''!''"
    using Some match_image_not_bang [of c cs] by auto
  obtain q where "repl a p = ''!['' @ a @ '']('' @ q @ '')''"
    using assms unfolding writes_embed_def by blast
  then show ?thesis using Some t c by simp
qed

lemma match_path_fails_after:
  assumes w: "writes_embed repl" and f: "match_path s = None"
  shows "match_path (re_sub_image repl s) = None"
proof (cases "CHR '')'' \<in> set s")
  case False
  then show ?thesis using f by (simp add: re_sub_image_no_close)
next
  case True
  then obtain p r where s: "s = p @ CHR '')'' # r" and np: "CHR '')'' \<notin> set p"
    by (meson split_list_first)
  have "p = []"
  proof (rule ccontr)
    assume "p \<noteq> []"
    then have "match_path s = Some (p, r)" using s np by (simp add: match_path_iff)
    then show False using f by simp
  qed
  then obtain t where "re_sub_image repl s = CHR '')'' # t"
    using s re_sub_image_head [OF w, of "CHR '')''" r] by auto
  then show ?thesis by (simp add: match_path_def)
qed

lemma match_alt_fails_after:
  assumes w: "writes_embed repl"
  shows "match_alt s = None \<Longrightarrow> match_alt (re_sub_image repl s) = None"
proof (induction s)
  case Nil
  then show ?case by simp
next
  case (Cons x r)
  show ?case
  proof (cases "x = CHR '']''")
    case True
    then have step: "re_sub_image repl (x # r) = x # re_sub_image repl r"
      by (simp add: match_image_not_bang)
    show ?thesis
    proof (cases r)
      case Nil
      then show ?thesis using step True by simp
    next
      case (Cons d r2)
      show ?thesis
      proof (cases "d = CHR ''(''")
        case False
        obtain t where "re_sub_image repl (d # r2) = d # t"
          using re_sub_image_head [OF w] by blast
        then show ?thesis using step True Cons False by simp
      next
        case d: True
        then have inner: "re_sub_image repl (d # r2) = d # re_sub_image repl r2"
          by (simp add: match_image_not_bang)
        have "match_path r2 = None"
          using Cons.prems True Cons d by simp
        then have "match_path (re_sub_image repl r2) = None"
          by (rule match_path_fails_after [OF w])
        then show ?thesis using step True Cons d inner by simp
      qed
    qed
  next
    case False
    then have alt_r: "match_alt r = None" using Cons.prems by simp
    have no: "match_image (x # r) = None"
    proof (cases "match_image (x # r)")
      case None
      then show ?thesis .
    next
      case (Some t)
      obtain a p rest where t: "t = (a, p, rest)" by (cases t)
      have "x # r = ''!['' @ a @ '']('' @ p @ CHR '')'' # rest
            \<and> CHR '']'' \<notin> set a \<and> CHR '')'' \<notin> set p \<and> p \<noteq> []"
        using Some t by (simp add: match_image_iff)
      then have "match_alt (x # r) = Some (''!['' @ a, p, rest)"
        by (simp add: match_alt_iff)
      then show ?thesis using Cons.prems by simp
    qed
    then have "re_sub_image repl (x # r) = x # re_sub_image repl r" by simp
    then show ?thesis using False Cons.IH [OF alt_r] by simp
  qed
qed

lemma match_image_fails_after:
  assumes w: "writes_embed repl" and f: "match_image (c # cs) = None"
  shows "match_image (c # re_sub_image repl cs) = None"
proof (cases "c = CHR ''!''")
  case False
  then show ?thesis by (rule match_image_not_bang)
next
  case c: True
  show ?thesis
  proof (cases cs)
    case Nil
    then show ?thesis by (simp add: match_image_def)
  next
    case (Cons d r)
    show ?thesis
    proof (cases "d = CHR ''[''")
      case False
      obtain t where "re_sub_image repl (d # r) = d # t"
        using re_sub_image_head [OF w] by blast
      then show ?thesis using Cons False by (simp add: match_image_def)
    next
      case d: True
      then have inner: "re_sub_image repl (d # r) = d # re_sub_image repl r"
        by (simp add: match_image_not_bang)
      have "match_alt r = None" using f c Cons d by (simp add: match_image_def)
      then have "match_alt (re_sub_image repl r) = None"
        by (rule match_alt_fails_after [OF w])
      then show ?thesis using c Cons d inner by (simp add: match_image_def)
    qed
  qed
qed

text \<open>
  A second pass finds the embeds of the first pass's output exactly where the first pass
  wrote them, provided the path the callback writes has no \<open>)\<close>.
\<close>

lemma re_sub_image_twice:
  assumes w: "writes_embed repl"
    and again: "\<And>a p. CHR '']'' \<notin> set a \<Longrightarrow> CHR '')'' \<notin> set p \<Longrightarrow> p \<noteq> [] \<Longrightarrow>
       \<exists>q. repl a p = ''!['' @ a @ '']('' @ q @ '')'' \<and> CHR '')'' \<notin> set q \<and> q \<noteq> []
           \<and> repl a q = repl a p"
  shows "re_sub_image repl (re_sub_image repl s) = re_sub_image repl s"
proof (induction "length s" arbitrary: s rule: less_induct)
  case less
  show ?case
  proof (cases s)
    case Nil
    then show ?thesis by simp
  next
    case (Cons c cs)
    show ?thesis
    proof (cases "match_image (c # cs)")
      case None
      then have step: "re_sub_image repl (c # cs) = c # re_sub_image repl cs" by simp
      have ih: "re_sub_image repl (re_sub_image repl cs) = re_sub_image repl cs"
        using less.hyps [of cs] Cons by simp
      have "match_image (c # re_sub_image repl cs) = None"
        using w None by (rule match_image_fails_after)
      then show ?thesis using step ih Cons by simp
    next
      case (Some t)
      obtain a p rest where t: "t = (a, p, rest)" by (cases t)
      have m: "match_image (c # cs) = Some (a, p, rest)" using Some t by simp
      then have ok: "CHR '']'' \<notin> set a" "CHR '')'' \<notin> set p" "p \<noteq> []"
        by (simp_all add: match_image_iff)
      obtain q where q: "repl a p = ''!['' @ a @ '']('' @ q @ '')''"
        "CHR '')'' \<notin> set q" "q \<noteq> []" "repl a q = repl a p"
        using again [OF ok] by blast
      have step: "re_sub_image repl (c # cs) = repl a p @ re_sub_image repl rest"
        using m by simp
      have "length rest < length s"
        using match_image_shorter [OF m] Cons by simp
      then have ih: "re_sub_image repl (re_sub_image repl rest) = re_sub_image repl rest"
        by (rule less.hyps)
      have "re_sub_image repl (repl a p @ re_sub_image repl rest)
              = repl a q @ re_sub_image repl (re_sub_image repl rest)"
        using re_sub_image_embed [OF ok(1) q(2) q(3), of repl "re_sub_image repl rest"] q(1)
        by simp
      then show ?thesis using step ih q(4) Cons by simp
    qed
  qed
qed


subsection \<open>Base names and the rename map\<close>

lemma basename_no_slash: "CHR ''/'' \<notin> set (basename p)"
proof
  assume "CHR ''/'' \<in> set (basename p)"
  then have "CHR ''/'' \<in> set (takeWhile (\<lambda>c. c \<noteq> CHR ''/'') (rev p))"
    by (simp add: basename_def)
  then show False by (auto dest: set_takeWhileD)
qed

lemma basename_subset: "set (basename p) \<subseteq> set p"
proof -
  have "set (takeWhile (\<lambda>c. c \<noteq> CHR ''/'') (rev p)) \<subseteq> set (rev p)"
    by (rule set_takeWhileD [THEN conjunct1, THEN subsetI])
  then show ?thesis by (simp add: basename_def)
qed

lemma basename_under:
  assumes "CHR ''/'' \<notin> set n"
  shows "basename (d @ CHR ''/'' # n) = n"
proof -
  have "takeWhile (\<lambda>c. c \<noteq> CHR ''/'') (rev n @ CHR ''/'' # rev d)
          = rev n @ takeWhile (\<lambda>c. c \<noteq> CHR ''/'') (CHR ''/'' # rev d)"
    by (rule takeWhile_append2) (use assms in auto)
  then show ?thesis by (simp add: basename_def)
qed

text \<open>The name the callbacks write for a path: the mapped name, or the base name.\<close>

definition resolved_name :: "(string \<rightharpoonup> string) \<Rightarrow> string \<Rightarrow> string" where
  "resolved_name m path = (case m (basename path) of Some n \<Rightarrow> n | None \<Rightarrow> basename path)"

lemma replace_image_eq:
  "replace_image m a p = ''!['' @ a @ ''](/images/'' @ resolved_name m p @ '')''"
  by (simp add: replace_image_def resolved_name_def split: option.split)

text \<open>
  A name is plain when it has no \<open>/\<close>, no \<open>]\<close> and no \<open>)\<close>. A rename map is
  settled when its keys and values are plain and a value that is a key too is bound to
  itself.
\<close>

definition plain_name :: "string \<Rightarrow> bool" where
  "plain_name n = (CHR ''/'' \<notin> set n \<and> CHR '']'' \<notin> set n \<and> CHR '')'' \<notin> set n)"

definition settled_map :: "(string \<rightharpoonup> string) \<Rightarrow> bool" where
  "settled_map m =
     (\<forall>k v. m k = Some v \<longrightarrow> plain_name k \<and> plain_name v \<and> (m v = None \<or> m v = Some v))"

lemma resolved_name_again:
  assumes s: "settled_map m" and p: "CHR '')'' \<notin> set path"
  shows "CHR '')'' \<notin> set (resolved_name m path)
       \<and> resolved_name m (''/images/'' @ resolved_name m path) = resolved_name m path"
proof (cases "m (basename path)")
  case None
  then have r: "resolved_name m path = basename path" by (simp add: resolved_name_def)
  have "basename (''/images'' @ CHR ''/'' # basename path) = basename path"
    by (rule basename_under [OF basename_no_slash])
  then have "resolved_name m (''/images/'' @ basename path) = basename path"
    using None by (simp add: resolved_name_def)
  moreover have "CHR '')'' \<notin> set (basename path)"
    using p basename_subset by blast
  ultimately show ?thesis using r by simp
next
  case (Some v)
  then have r: "resolved_name m path = v" by (simp add: resolved_name_def)
  have pv: "plain_name v" and mv: "m v = None \<or> m v = Some v"
    using s Some unfolding settled_map_def by blast+
  have "basename (''/images'' @ CHR ''/'' # v) = v"
    using pv by (intro basename_under) (simp add: plain_name_def)
  then have "resolved_name m (''/images/'' @ v) = v"
    using mv by (auto simp: resolved_name_def)
  then show ?thesis using r pv by (simp add: plain_name_def)
qed

lemma update_image_references_embed:
  assumes "CHR ''!'' \<notin> set pre" "CHR '']'' \<notin> set alt" "CHR '')'' \<notin> set path" "path \<noteq> []"
  shows "update_image_references (pre @ ''!['' @ alt @ '']('' @ path @ '')'' @ post) m
         = pre @ ''!['' @ alt @ ''](/images/'' @ resolved_name m path @ '')''
             @ update_image_references post m"
  using assms re_sub_image_embed [OF assms(2,3,4), of "replace_image m" post]
  by (simp add: update_image_references_def re_sub_image_plain replace_image_eq)

text \<open>
  C10. For a rename map whose keys and values are plain names, none of whose values is
  also a key bound to another name, rewriting a rewritten body changes nothing.
\<close>

theorem update_image_references_idempotent:
  assumes "settled_map copied_images"
  shows "update_image_references (update_image_references body copied_images) copied_images
         = update_image_references body copied_images"
  unfolding update_image_references_def
proof (rule re_sub_image_twice [OF writes_embed_replace_image])
  fix a p :: string
  assume "CHR '']'' \<notin> set a" and p: "CHR '')'' \<notin> set p" and "p \<noteq> []"
  let ?q = "''/images/'' @ resolved_name copied_images p"
  have "replace_image copied_images a p = ''!['' @ a @ '']('' @ ?q @ '')''"
    by (simp add: replace_image_eq)
  moreover have "CHR '')'' \<notin> set ?q"
    using resolved_name_again [OF assms p] by simp
  moreover have "?q \<noteq> []" by simp
  moreover have "replace_image copied_images a ?q = replace_image copied_images a p"
    using resolved_name_again [OF assms p] by (simp add: replace_image_eq)
  ultimately show "\<exists>q. replace_image copied_images a p = ''!['' @ a @ '']('' @ q @ '')''
      \<and> CHR '')'' \<notin> set q \<and> q \<noteq> []
      \<and> replace_image copied_images a q = replace_image copied_images a p"
    by blast
qed

lemmas scan_simps =
  update_image_references_def update_image_references_pkg_def replace_image_def
  replace_image_pkg_def match_image_def match_path_def basename_def

theorem update_image_references_idempotent_witness:
  "settled_map [''a.png'' \<mapsto> ''a_1.png'']
   \<and> update_image_references ''see ![x](d/a.png), ![y](b.png)'' [''a.png'' \<mapsto> ''a_1.png'']
       = ''see ![x](/images/a_1.png), ![y](/images/b.png)''
   \<and> update_image_references ''see ![x](/images/a_1.png), ![y](/images/b.png)''
        [''a.png'' \<mapsto> ''a_1.png'']
       = ''see ![x](/images/a_1.png), ![y](/images/b.png)''"
proof -
  let ?m = "[''a.png'' \<mapsto> ''a_1.png'']"
  have s: "settled_map ?m"
    by (simp add: settled_map_def plain_name_def)
  have e: "update_image_references ''see ![x](d/a.png), ![y](b.png)'' ?m
       = ''see ![x](/images/a_1.png), ![y](/images/b.png)''"
    by (simp add: scan_simps)
  show ?thesis
    using s e update_image_references_idempotent [OF s, of "''see ![x](d/a.png), ![y](b.png)''"]
    by simp
qed

text \<open>
  C5. The rewriter of \<open>blog_generator/md_to_html.py\<close> writes a mapped name under
  \<open>../images/\<close> and an unmapped one under \<open>/images/\<close>: two prefixes in one body.
  The rewriter of \<open>blog_generator.py\<close> writes \<open>/images/\<close> for both.
\<close>

theorem update_image_references_pkg_prefixes:
  "update_image_references_pkg ''![x](d/a.png) ![y](d/b.png)'' [''a.png'' \<mapsto> ''a_1.png'']
     = ''![x](../images/a_1.png) ![y](/images/b.png)''
   \<and> update_image_references ''![x](d/a.png) ![y](d/b.png)'' [''a.png'' \<mapsto> ''a_1.png'']
     = ''![x](/images/a_1.png) ![y](/images/b.png)''"
  by (simp add: scan_simps)


section \<open>The asset deduplicator\<close>

text \<open>
  \<open>os.path.splitext\<close>: the extension starts at the last dot of the path, provided
  that dot lies in the last component and some character other than a dot stands
  before it there; otherwise the extension is empty.
\<close>

definition splitext :: "string \<Rightarrow> string \<times> string" where
  "splitext p =
     (if CHR ''.'' \<notin> set p then (p, [])
      else
        let after = rev (takeWhile (\<lambda>c. c \<noteq> CHR ''.'') (rev p));
            root = take (length p - length after - 1) p
        in if CHR ''/'' \<in> set after \<or> list_all (\<lambda>c. c = CHR ''.'') (basename root)
           then (p, [])
           else (root, CHR ''.'' # after))"

text \<open>\<open>str.lower\<close> on code points below 256.\<close>

definition lower_char :: "char \<Rightarrow> char" where
  "lower_char c =
     (let n = (of_char c :: nat)
      in if (65 \<le> n \<and> n \<le> 90) \<or> (192 \<le> n \<and> n \<le> 214) \<or> (216 \<le> n \<and> n \<le> 222)
         then char_of (n + 32) else c)"

definition lower :: "string \<Rightarrow> string" where
  "lower s = map lower_char s"

definition image_extensions :: "string list" where
  "image_extensions =
     [''.jpg'', ''.jpeg'', ''.png'', ''.gif'', ''.svg'', ''.webp'', ''.bmp'', ''.ico'']"

definition is_image :: "string \<Rightarrow> bool" where
  "is_image file = (lower (snd (splitext file)) \<in> set image_extensions)"

text \<open>The decimal text of a counter, as an f-string writes it.\<close>

function str_nat :: "nat \<Rightarrow> string" where
  "str_nat n =
     (if n < 10 then [char_of (48 + n)]
      else str_nat (n div 10) @ [char_of (48 + n mod 10)])"
  by pat_completeness auto
termination
  by (relation "measure id") auto

declare str_nat.simps [simp del]

text \<open>\<^verbatim>\<open>name, ext = os.path.splitext(file); f"{name}_{counter}{ext}"\<close>\<close>

definition suffixed :: "string \<Rightarrow> nat \<Rightarrow> string" where
  "suffixed file counter =
     (let (name, ext) = splitext file in name @ ''_'' @ str_nat counter @ ext)"

subsection \<open>The candidates of one file are all different\<close>

definition digits_value :: "string \<Rightarrow> nat" where
  "digits_value s = foldl (\<lambda>a c. 10 * a + (of_char c - 48)) 0 s"

lemma digits_value_str_nat: "digits_value (str_nat n) = n"
proof (induction n rule: str_nat.induct)
  case (1 n)
  show ?case
  proof (cases "n < 10")
    case True
    then show ?thesis by (simp add: str_nat.simps [of n] digits_value_def)
  next
    case False
    have "digits_value (str_nat n) = 10 * digits_value (str_nat (n div 10)) + n mod 10"
      using False by (simp add: str_nat.simps [of n] digits_value_def)
    then show ?thesis using "1.IH" False by simp
  qed
qed

lemma str_nat_inj: "str_nat a = str_nat b \<Longrightarrow> a = b"
  by (metis digits_value_str_nat)

lemma suffixed_inj: "suffixed file a = suffixed file b \<Longrightarrow> a = b"
  by (auto simp: suffixed_def split: prod.splits dest: str_nat_inj)

lemma finite_suffixed: "finite {k. suffixed file k \<in> set present}"
proof -
  have "inj (suffixed file)" by (rule injI) (rule suffixed_inj)
  then have "finite (suffixed file -` set present)"
    by (intro finite_vimageI) simp_all
  then show ?thesis by (simp add: vimage_def)
qed

text \<open>
  The collision loop, with \<open>present\<close> the names in the output directory:
  \<^verbatim>\<open>
  while os.path.exists(dst_path):
      name, ext = os.path.splitext(file)
      dst_path = os.path.join(images_dir, f"{name}_{counter}{ext}")
      counter += 1
  \<close>
\<close>

function free_name :: "string list \<Rightarrow> string \<Rightarrow> string \<Rightarrow> nat \<Rightarrow> string" where
  "free_name present file dst_path counter =
     (if dst_path \<in> set present
      then free_name present file (suffixed file counter) (counter + 1)
      else dst_path)"
  by pat_completeness auto
termination
proof (relation "measure (\<lambda>(present, file, dst_path, counter).
          card {k. counter \<le> k \<and> suffixed file k \<in> set present}
          + (if dst_path \<in> set present then 1 else 0))")
  show "wf (measure (\<lambda>(present, file, dst_path, counter).
          card {k. counter \<le> k \<and> suffixed file k \<in> set present}
          + (if dst_path \<in> set present then 1 else 0)))"
    by simp
next
  fix present :: "string list" and fname dst_path :: string and counter :: nat
  assume "dst_path \<in> set present"
  let ?A = "\<lambda>c. {k. c \<le> k \<and> suffixed fname k \<in> set present}"
  have fin: "finite (?A c)" for c
    by (rule finite_subset [OF _ finite_suffixed [of fname present]]) auto
  have "card (?A (counter + 1)) + (if suffixed fname counter \<in> set present then 1 else 0)
        \<le> card (?A counter)"
  proof (cases "suffixed fname counter \<in> set present")
    case True
    have "?A counter = insert counter (?A (counter + 1))"
      using True by (auto simp: le_Suc_eq)
    moreover have "counter \<notin> ?A (counter + 1)" by simp
    ultimately show ?thesis using fin [of "counter + 1"] by simp
  next
    case False
    have "?A (counter + 1) \<subseteq> ?A counter" by auto
    then show ?thesis using False fin [of counter] by (simp add: card_mono)
  qed
  then show "((present, fname, suffixed fname counter, counter + 1),
              (present, fname, dst_path, counter))
        \<in> measure (\<lambda>(present, file, dst_path, counter).
          card {k. counter \<le> k \<and> suffixed file k \<in> set present}
          + (if dst_path \<in> set present then 1 else 0))"
    using \<open>dst_path \<in> set present\<close> by simp
qed

declare free_name.simps [simp del]

text \<open>
  The state of \<open>copy_assets\<close>: the output image directory (names with their contents),
  the dictionary \<open>copied_images\<close>, and the lines printed, one per copy, each the source
  name and the name it was copied to.
\<close>

record 'c assets =
  images_dir :: "(string \<times> 'c) list"
  copied_images :: "string \<rightharpoonup> string"
  printed :: "(string \<times> string) list"

text \<open>
  The body of the inner loop for an image file holding \<open>data\<close>; \<open>shutil.copy2\<close>
  writes the destination whether or not it exists.
\<close>

definition copy_image :: "string \<Rightarrow> 'c \<Rightarrow> 'c assets \<Rightarrow> 'c assets" where
  "copy_image file data st =
     (let dst = free_name (map fst (images_dir st)) file file 1
      in \<lparr> images_dir = AList.update dst data (images_dir st),
           copied_images = (copied_images st)(file \<mapsto> dst),
           printed = printed st @ [(file, dst)] \<rparr>)"

fun copy_files :: "(string \<times> 'c) list \<Rightarrow> 'c assets \<Rightarrow> 'c assets" where
  "copy_files [] st = st"
| "copy_files ((file, data) # files) st =
     copy_files files (if is_image file then copy_image file data st else st)"

text \<open>
  \<open>os.walk\<close> yields the directories of the tree one by one, each with the files in
  it; the walk is given as that list, a file as its name and its content.
\<close>

fun copy_walk :: "(string \<times> (string \<times> 'c) list) list \<Rightarrow> 'c assets \<Rightarrow> 'c assets" where
  "copy_walk [] st = st"
| "copy_walk ((root, files) # rest) st = copy_walk rest (copy_files files st)"

definition copy_assets ::
  "(string \<times> (string \<times> 'c) list) list \<Rightarrow> (string \<times> 'c) list \<Rightarrow> 'c assets" where
  "copy_assets walk existing =
     copy_walk walk \<lparr> images_dir = existing, copied_images = Map.empty, printed = [] \<rparr>"


subsection \<open>The collision loop finds a free name\<close>

lemma free_name_fresh: "free_name present fname dst_path counter \<notin> set present"
proof (induction present fname dst_path counter rule: free_name.induct)
  case (1 present fname dst_path counter)
  then show ?case by (simp add: free_name.simps [of present fname dst_path counter])
qed

lemma free_name_form:
  "free_name present fname dst_path counter = dst_path
   \<or> (\<exists>k \<ge> counter. free_name present fname dst_path counter = suffixed fname k)"
proof (induction present fname dst_path counter rule: free_name.induct)
  case (1 present fname dst_path counter)
  show ?case
  proof (cases "dst_path \<in> set present")
    case False
    then show ?thesis by (simp add: free_name.simps [of present fname dst_path counter])
  next
    case True
    then have eq: "free_name present fname dst_path counter
        = free_name present fname (suffixed fname counter) (counter + 1)"
      by (simp add: free_name.simps [of present fname dst_path counter])
    from "1.IH" [OF True] show ?thesis
    proof
      assume "free_name present fname (suffixed fname counter) (counter + 1)
                = suffixed fname counter"
      then show ?thesis using eq by auto
    next
      assume "\<exists>k \<ge> counter + 1.
         free_name present fname (suffixed fname counter) (counter + 1) = suffixed fname k"
      then obtain k where "k \<ge> counter + 1"
        "free_name present fname (suffixed fname counter) (counter + 1) = suffixed fname k"
        by blast
      then show ?thesis using eq by (auto intro: exI [of _ k])
    qed
  qed
qed

subsection \<open>One copy\<close>

definition assigned :: "'c assets \<Rightarrow> string \<Rightarrow> string" where
  "assigned st fname = free_name (map fst (images_dir st)) fname fname 1"

lemma assigned_fresh: "map_of (images_dir st) (assigned st fname) = None"
proof -
  have "assigned st fname \<notin> fst ` set (images_dir st)"
    using free_name_fresh [of "map fst (images_dir st)" fname fname 1]
    by (simp add: assigned_def)
  then show ?thesis by (simp add: map_of_eq_None_iff)
qed

lemma assigned_form:
  "assigned st fname = fname \<or> (\<exists>k \<ge> 1. assigned st fname = suffixed fname k)"
  unfolding assigned_def by (rule free_name_form)

lemma copy_image_fields:
  "images_dir (copy_image fname data st) = AList.update (assigned st fname) data (images_dir st)"
  "copied_images (copy_image fname data st) = (copied_images st)(fname \<mapsto> assigned st fname)"
  "printed (copy_image fname data st) = printed st @ [(fname, assigned st fname)]"
  by (simp_all add: copy_image_def assigned_def Let_def)

lemma copy_image_dir:
  "map_of (images_dir (copy_image fname data st))
     = (map_of (images_dir st))(assigned st fname \<mapsto> data)"
  by (simp add: copy_image_fields update_conv')

lemma copy_image_keeps:
  assumes "map_of (images_dir st) n = Some v"
  shows "map_of (images_dir (copy_image fname data st)) n = Some v"
proof -
  have "n \<noteq> assigned st fname" using assms assigned_fresh [of st fname] by auto
  then show ?thesis using assms by (simp add: copy_image_dir)
qed

subsection \<open>The whole walk\<close>

lemma copy_files_append:
  "copy_files (xs @ ys) st = copy_files ys (copy_files xs st)"
  by (induction xs arbitrary: st) auto

lemma copy_walk_files: "copy_walk walk st = copy_files (concat (map snd walk)) st"
  by (induction walk arbitrary: st) (auto simp: copy_files_append)

lemma copy_files_keeps:
  "map_of (images_dir st) n = Some v \<Longrightarrow>
   map_of (images_dir (copy_files files st)) n = Some v"
proof (induction files arbitrary: st)
  case Nil
  then show ?case by simp
next
  case (Cons x files)
  obtain fname data where x: "x = (fname, data)" by (cases x)
  show ?case using Cons.prems x
    by (auto intro!: Cons.IH copy_image_keeps)
qed

text \<open>
  The lines printed by a run: those before it, then one per image file in the order of
  the walk, each with a name that was free when the run began and is either the file's
  own name or one of its suffixed names.
\<close>

lemma copy_files_printed:
  "\<exists>new. printed (copy_files files st) = printed st @ new
     \<and> map fst new = filter is_image (map fst files)
     \<and> (\<forall>e \<in> set new. map_of (images_dir st) (snd e) = None
           \<and> (snd e = fst e \<or> (\<exists>k \<ge> 1. snd e = suffixed (fst e) k)))"
proof (induction files arbitrary: st)
  case Nil
  then show ?case by simp
next
  case (Cons x files)
  obtain fname data where x: "x = (fname, data)" by (cases x)
  show ?case
  proof (cases "is_image fname")
    case False
    then show ?thesis using Cons.IH [of st] x by simp
  next
    case True
    let ?st = "copy_image fname data st"
    obtain new where new: "printed (copy_files files ?st) = printed ?st @ new"
      "map fst new = filter is_image (map fst files)"
      "\<forall>e \<in> set new. map_of (images_dir ?st) (snd e) = None
           \<and> (snd e = fst e \<or> (\<exists>k \<ge> 1. snd e = suffixed (fst e) k))"
      using Cons.IH [of ?st] by blast
    have free: "map_of (images_dir st) (snd e) = None" if "e \<in> set new" for e
    proof (rule ccontr)
      assume "map_of (images_dir st) (snd e) \<noteq> None"
      then obtain v where "map_of (images_dir st) (snd e) = Some v" by auto
      then have "map_of (images_dir ?st) (snd e) = Some v" by (rule copy_image_keeps)
      then show False using new(3) that by simp
    qed
    let ?new = "(fname, assigned st fname) # new"
    have "printed (copy_files (x # files) st) = printed st @ ?new"
      using x True new(1) by (simp add: copy_image_fields)
    moreover have "map fst ?new = filter is_image (map fst (x # files))"
      using x True new(2) by simp
    moreover have "\<forall>e \<in> set ?new. map_of (images_dir st) (snd e) = None
           \<and> (snd e = fst e \<or> (\<exists>k \<ge> 1. snd e = suffixed (fst e) k))"
      using new(3) free assigned_fresh [of st fname] assigned_form [of st fname] by auto
    ultimately show ?thesis by blast
  qed
qed

text \<open>Every image file of the walk ends up in the directory under a printed name.\<close>

lemma copy_files_stored:
  assumes "(fname, data) \<in> set files" "is_image fname"
  shows "\<exists>dst. (fname, dst) \<in> set (printed (copy_files files st))
           \<and> map_of (images_dir (copy_files files st)) dst = Some data"
  using assms
proof (induction files arbitrary: st)
  case Nil
  then show ?case by simp
next
  case (Cons x files)
  obtain f d where x: "x = (f, d)" by (cases x)
  let ?st = "if is_image f then copy_image f d st else st"
  have run: "copy_files (x # files) st = copy_files files ?st" using x by simp
  show ?case
  proof (cases "x = (fname, data)")
    case True
    then have st: "?st = copy_image fname data st" using x Cons.prems by simp
    obtain new where "printed (copy_files files ?st) = printed ?st @ new"
      using copy_files_printed [of files ?st] by blast
    then have "(fname, assigned st fname) \<in> set (printed (copy_files files ?st))"
      using st by (simp add: copy_image_fields)
    moreover have "map_of (images_dir ?st) (assigned st fname) = Some data"
      using st by (simp add: copy_image_dir)
    then have "map_of (images_dir (copy_files files ?st)) (assigned st fname) = Some data"
      by (rule copy_files_keeps)
    ultimately show ?thesis using run by metis
  next
    case False
    then have "(fname, data) \<in> set files" using Cons.prems by simp
    then show ?thesis using Cons.IH [of ?st] Cons.prems(2) run by metis
  qed
qed

text \<open>
  What the loop maintains: the printed destinations are pairwise different and all in
  the directory, and the dictionary is the printed list read from its end.
\<close>

definition log_ok :: "'c assets \<Rightarrow> bool" where
  "log_ok st =
     (distinct (map snd (printed st))
      \<and> list_all (\<lambda>e. map_of (images_dir st) (snd e) \<noteq> None) (printed st)
      \<and> copied_images st = map_of (rev (printed st)))"

lemma copy_image_log_ok:
  assumes "log_ok st"
  shows "log_ok (copy_image fname data st)"
proof -
  have d: "distinct (map snd (printed st))"
    and inside: "\<And>e. e \<in> set (printed st) \<Longrightarrow> map_of (images_dir st) (snd e) \<noteq> None"
    and m: "copied_images st = map_of (rev (printed st))"
    using assms by (auto simp: log_ok_def list_all_iff)
  have "assigned st fname \<notin> snd ` set (printed st)"
    using inside assigned_fresh [of st fname] by force
  then have "distinct (map snd (printed (copy_image fname data st)))"
    using d by (simp add: copy_image_fields)
  moreover have "map_of (images_dir (copy_image fname data st)) (snd e) \<noteq> None"
    if "e \<in> set (printed (copy_image fname data st))" for e
    using that inside [of e] by (auto simp: copy_image_fields(3) copy_image_dir)
  moreover have "copied_images (copy_image fname data st)
        = map_of (rev (printed (copy_image fname data st)))"
    using m by (simp add: copy_image_fields)
  ultimately show ?thesis by (simp add: log_ok_def list_all_iff)
qed

lemma copy_files_log_ok: "log_ok st \<Longrightarrow> log_ok (copy_files files st)"
proof (induction files arbitrary: st)
  case Nil
  then show ?case by simp
next
  case (Cons x files)
  obtain f d where x: "x = (f, d)" by (cases x)
  show ?case using Cons.prems x by (auto intro!: Cons.IH copy_image_log_ok)
qed

lemma copy_assets_log_ok: "log_ok (copy_assets walk existing)"
proof -
  have "log_ok \<lparr> images_dir = existing, copied_images = Map.empty, printed = [] \<rparr>"
    by (simp add: log_ok_def)
  then show ?thesis
    by (simp add: copy_assets_def copy_walk_files copy_files_log_ok)
qed

lemma copy_assets_printed:
  "map fst (printed (copy_assets walk existing))
     = filter is_image (map fst (concat (map snd walk)))
   \<and> (\<forall>e \<in> set (printed (copy_assets walk existing)).
         map_of existing (snd e) = None
         \<and> (snd e = fst e \<or> (\<exists>k \<ge> 1. snd e = suffixed (fst e) k)))"
  using copy_files_printed [of "concat (map snd walk)"
      "\<lparr> images_dir = existing, copied_images = Map.empty, printed = [] \<rparr>"]
  by (auto simp: copy_assets_def copy_walk_files)


lemma map_of_rev_last:
  assumes "xs = pre @ (k, v) # post" "k \<notin> fst ` set post"
  shows "map_of (rev xs) k = Some v"
proof -
  have "map_of (rev post) k = None"
    using assms(2) by (simp add: map_of_eq_None_iff)
  then show ?thesis using assms(1) by (simp add: map_add_def)
qed

lemma distinct_snd_same:
  assumes "distinct (map snd xs)" "(a, v) \<in> set xs" "(b, v) \<in> set xs"
  shows "a = b"
proof -
  have inj: "inj_on snd (set xs)" using assms(1) by (simp add: distinct_map)
  have "(a, v) = (b, v)"
    using inj_onD [OF inj, of "(a, v)" "(b, v)"] assms(2,3) by simp
  then show ?thesis by simp
qed

text \<open>
  C1, as the code has it. The keys of the rename map are the names of the image files of
  the walk, and a key is bound to the name printed for the last file of that name: where
  the printed list has an entry for a name and no later entry for the same name, the map
  binds the name to that entry's destination.
\<close>

theorem copy_assets_binds_last:
  "map fst (printed (copy_assets walk existing))
     = filter is_image (map fst (concat (map snd walk)))
   \<and> dom (copied_images (copy_assets walk existing))
     = set (map fst (printed (copy_assets walk existing)))
   \<and> (\<forall>pre f dst post.
        printed (copy_assets walk existing) = pre @ (f, dst) # post \<and> f \<notin> fst ` set post
        \<longrightarrow> copied_images (copy_assets walk existing) f = Some dst)"
proof -
  let ?st = "copy_assets walk existing"
  have m: "copied_images ?st = map_of (rev (printed ?st))"
    using copy_assets_log_ok [of walk existing] by (simp add: log_ok_def)
  have "dom (copied_images ?st) = set (map fst (printed ?st))"
    unfolding m by (simp add: dom_map_of_conv_image_fst)
  moreover have "copied_images ?st f = Some dst"
    if "printed ?st = pre @ (f, dst) # post" "f \<notin> fst ` set post" for pre f dst post
    unfolding m using that by (rule map_of_rev_last)
  ultimately show ?thesis using copy_assets_printed [of walk existing] by blast
qed

theorem copy_assets_binds_last_witness:
  "printed (copy_assets [(''blogs/x'', [(''a.png'', 1::nat)]), (''blogs/y'', [(''a.png'', 2)])] [])
     = [(''a.png'', ''a.png'')] @ (''a.png'', ''a_1.png'') # []
   \<and> ''a.png'' \<notin> fst ` set ([] :: (string \<times> string) list)
   \<and> copied_images
        (copy_assets [(''blogs/x'', [(''a.png'', 1::nat)]), (''blogs/y'', [(''a.png'', 2)])] [])
        ''a.png'' = Some ''a_1.png''"
proof -
  let ?w = "[(''blogs/x'', [(''a.png'', 1::nat)]), (''blogs/y'', [(''a.png'', 2)])]"
  have p: "printed (copy_assets ?w []) = [(''a.png'', ''a.png'')] @ (''a.png'', ''a_1.png'') # []"
    by code_simp
  have "copied_images (copy_assets ?w []) ''a.png'' = Some ''a_1.png''"
    using p copy_assets_binds_last [of ?w "[]", THEN conjunct2, THEN conjunct2, rule_format,
        of "[(''a.png'', ''a.png'')]" "''a.png''" "''a_1.png''" "[]"]
    by simp
  then show ?thesis using p by simp
qed

text \<open>
  C1, as the specification words it, fails: of two files named \<open>a.png\<close> the first is
  copied to \<open>a.png\<close> and the second to \<open>a_1.png\<close>, and the map binds \<open>a.png\<close> to
  the second file's name.
\<close>

theorem copy_assets_first_binding_replaced:
  "hd (printed
        (copy_assets [(''blogs/x'', [(''a.png'', 1::nat)]), (''blogs/y'', [(''a.png'', 2)])] []))
     = (''a.png'', ''a.png'')
   \<and> copied_images
        (copy_assets [(''blogs/x'', [(''a.png'', 1::nat)]), (''blogs/y'', [(''a.png'', 2)])] [])
        ''a.png'' = Some ''a_1.png''
   \<and> ''a_1.png'' \<noteq> ''a.png''"
  by code_simp

text \<open>
  C2. A copy never overwrites: each copy writes one name that was not in the output
  directory, the file's own name or a suffixed one. Over a whole walk the destinations
  are pairwise different and none was in the directory before, what was in the directory
  stays as it was, every image file of the walk is in the directory at the end under a
  printed name, and no two keys of the rename map have the same value.
\<close>

theorem copy_assets_never_overwrites:
  "(\<exists>dst. map_of (images_dir st) dst = None
        \<and> (dst = f \<or> (\<exists>k \<ge> 1. dst = suffixed f k))
        \<and> map_of (images_dir (copy_image f data st)) = (map_of (images_dir st))(dst \<mapsto> data)
        \<and> printed (copy_image f data st) = printed st @ [(f, dst)])
   \<and> distinct (map snd (printed (copy_assets walk existing)))
   \<and> (\<forall>e \<in> set (printed (copy_assets walk existing)).
        map_of existing (snd e) = None
        \<and> (snd e = fst e \<or> (\<exists>k \<ge> 1. snd e = suffixed (fst e) k)))
   \<and> (\<forall>n v. map_of existing n = Some v \<longrightarrow>
        map_of (images_dir (copy_assets walk existing)) n = Some v)
   \<and> (\<forall>root files g d. (root, files) \<in> set walk \<and> (g, d) \<in> set files \<and> is_image g \<longrightarrow>
        (\<exists>dst. (g, dst) \<in> set (printed (copy_assets walk existing))
           \<and> map_of (images_dir (copy_assets walk existing)) dst = Some d))
   \<and> (\<forall>k1 k2 v. copied_images (copy_assets walk existing) k1 = Some v
        \<and> copied_images (copy_assets walk existing) k2 = Some v \<longrightarrow> k1 = k2)"
proof -
  let ?st = "copy_assets walk existing"
  let ?init = "\<lparr> images_dir = existing, copied_images = Map.empty, printed = [] \<rparr>"
  have run: "?st = copy_files (concat (map snd walk)) ?init"
    by (simp add: copy_assets_def copy_walk_files)
  have step: "\<exists>dst. map_of (images_dir st) dst = None
        \<and> (dst = f \<or> (\<exists>k \<ge> 1. dst = suffixed f k))
        \<and> map_of (images_dir (copy_image f data st)) = (map_of (images_dir st))(dst \<mapsto> data)
        \<and> printed (copy_image f data st) = printed st @ [(f, dst)]"
    using assigned_fresh [of st f] assigned_form [of st f] copy_image_dir [of f data st]
      copy_image_fields(3) [of f data st]
    by blast
  have ok: "log_ok ?st" by (rule copy_assets_log_ok)
  then have d: "distinct (map snd (printed ?st))"
    and m: "copied_images ?st = map_of (rev (printed ?st))"
    by (simp_all add: log_ok_def)
  have keep: "map_of (images_dir ?st) n = Some v" if "map_of existing n = Some v" for n v
    unfolding run by (rule copy_files_keeps) (use that in simp)
  have stored: "\<exists>dst. (g, dst) \<in> set (printed ?st) \<and> map_of (images_dir ?st) dst = Some d"
    if "(root, files) \<in> set walk" "(g, d) \<in> set files" "is_image g" for root files g d
  proof -
    have "(g, d) \<in> set (concat (map snd walk))" using that(1,2) by force
    then show ?thesis unfolding run using that(3) by (rule copy_files_stored)
  qed
  have inj: "k1 = k2"
    if "copied_images ?st k1 = Some v" "copied_images ?st k2 = Some v" for k1 k2 v
  proof -
    have "(k1, v) \<in> set (printed ?st)" "(k2, v) \<in> set (printed ?st)"
      using that m by (auto dest: map_of_SomeD)
    then show ?thesis using d by (rule distinct_snd_same [rotated])
  qed
  have fresh: "\<forall>e \<in> set (printed ?st).
        map_of existing (snd e) = None
        \<and> (snd e = fst e \<or> (\<exists>k \<ge> 1. snd e = suffixed (fst e) k))"
    using copy_assets_printed [of walk existing] by (rule conjunct2)
  have keep_all: "\<forall>n v. map_of existing n = Some v \<longrightarrow> map_of (images_dir ?st) n = Some v"
    using keep by simp
  have stored_all: "\<forall>root files g d.
        (root, files) \<in> set walk \<and> (g, d) \<in> set files \<and> is_image g \<longrightarrow>
        (\<exists>dst. (g, dst) \<in> set (printed ?st) \<and> map_of (images_dir ?st) dst = Some d)"
    using stored by (intro allI impI) (elim conjE)
  have inj_all: "\<forall>k1 k2 v. copied_images ?st k1 = Some v \<and> copied_images ?st k2 = Some v
        \<longrightarrow> k1 = k2"
    using inj by (intro allI impI) (elim conjE)
  show ?thesis
    by (intro conjI) (rule step d fresh keep_all stored_all inj_all)+
qed

theorem copy_assets_never_overwrites_witness:
  "map_of (images_dir
      (copy_assets [(''blogs/x'', [(''a.png'', 1::nat)]), (''blogs/y'', [(''a.png'', 2)])] []))
     ''a.png'' = Some 1
   \<and> map_of (images_dir
      (copy_assets [(''blogs/x'', [(''a.png'', 1::nat)]), (''blogs/y'', [(''a.png'', 2)])] []))
     ''a_1.png'' = Some 2
   \<and> distinct (map snd (printed
      (copy_assets [(''blogs/x'', [(''a.png'', 1::nat)]), (''blogs/y'', [(''a.png'', 2)])] [])))
   \<and> map snd (printed
      (copy_assets [(''blogs/x'', [(''a.png'', 1::nat)]), (''blogs/y'', [(''a.png'', 2)])] []))
     = [''a.png'', ''a_1.png'']"
proof -
  let ?w = "[(''blogs/x'', [(''a.png'', 1::nat)]), (''blogs/y'', [(''a.png'', 2)])]"
  have a: "map_of (images_dir (copy_assets ?w [])) ''a.png'' = Some 1" by code_simp
  have b: "map_of (images_dir (copy_assets ?w [])) ''a_1.png'' = Some 2" by code_simp
  have c: "map snd (printed (copy_assets ?w [])) = [''a.png'', ''a_1.png'']" by code_simp
  have "distinct (map snd (printed (copy_assets ?w [])))"
    by (rule copy_assets_never_overwrites
        [of "\<lparr> images_dir = [], copied_images = Map.empty, printed = [] \<rparr>"
            "''a.png''" "1::nat" ?w "[]", THEN conjunct2, THEN conjunct1])
  then show ?thesis using a b c by simp
qed


section \<open>Properties of the front-matter cut\<close>

lemma strip_frontmatter_few:
  "length (py_split ''---'' 2 md_content) < 3 \<Longrightarrow> strip_frontmatter md_content = md_content"
  by (simp add: strip_frontmatter_def)

lemma strip_frontmatter_no_delimiter:
  "py_find ''---'' md_content = None \<Longrightarrow> strip_frontmatter md_content = md_content"
  by (simp add: strip_frontmatter_def numeral_2_eq_2)

text \<open>
  C4. A text that does not begin with \<open>---\<close> has no header, yet the cut looks for the
  delimiter anywhere: a body with two rules loses everything up to the second one.
  The text here is \<open>Intro\<close>, a rule, \<open>A\<close>, a rule, \<open>B\<close>, on five lines.
\<close>

theorem strip_frontmatter_cuts_headerless_text:
  "\<not> prefix ''---'' (''Intro'' @ [CHR 0x0A] @ ''---'' @ [CHR 0x0A] @ ''A'' @ [CHR 0x0A]
        @ ''---'' @ [CHR 0x0A] @ ''B'')
   \<and> strip_frontmatter (''Intro'' @ [CHR 0x0A] @ ''---'' @ [CHR 0x0A] @ ''A'' @ [CHR 0x0A]
        @ ''---'' @ [CHR 0x0A] @ ''B'') = ''B''"
  by code_simp

end
